theory Spec2Isabelle
  imports Main
begin

section \<open>The adapt engine of t8code (src/t8\_forest/t8\_forest\_adapt.cxx)\<close>

subsection \<open>Element schemes\<close>

text \<open>
  The class \<open>t8_eclass_scheme_c\<close> is declared in \<open>t8_element_cxx.hxx\<close>, which is not
  among the sources.  The adapt engine only calls its virtual functions, so the scheme
  is a parameter of the model: a record with one field for each function the engine
  calls.  The fields \<open>t8_element_level\<close>, \<open>t8_element_maxlevel\<close> and
  \<open>t8_element_compare\<close> are not called by the engine; they are part of the scheme's
  interface and the properties below are stated with them.
\<close>

record 'e eclass_scheme =
  t8_element_num_children :: "'e \<Rightarrow> nat"
  t8_element_child_id :: "'e \<Rightarrow> nat"
  t8_element_parent :: "'e \<Rightarrow> 'e"
  t8_element_child :: "'e \<Rightarrow> nat \<Rightarrow> 'e"
  t8_element_is_family :: "'e list \<Rightarrow> bool"
  t8_element_level :: "'e \<Rightarrow> nat"
  t8_element_maxlevel :: nat
  t8_element_compare :: "'e \<Rightarrow> 'e \<Rightarrow> int"

text \<open>
  \<open>ts->t8_element_children (elem, length, c)\<close> fills \<open>c[0]\<close>, ..., \<open>c[length - 1]\<close>;
  the element written to \<open>c[i]\<close> is named \<open>t8_element_child ts elem i\<close>.
\<close>

definition t8_element_children :: "'e eclass_scheme \<Rightarrow> 'e \<Rightarrow> nat \<Rightarrow> 'e list" where
  "t8_element_children ts elem n = map (t8_element_child ts elem) [0..<n]"

subsection \<open>The forest fields read by the engine, and its state\<close>

text \<open>
  \<open>set_adapt_fn\<close> is the user's predicate; of its arguments the model keeps the local
  tree id, the number of elements and the elements.  \<open>set_replace_fn\<close> records whether
  a replace callback is set; its invocations are logged.  \<open>enable_debug\<close> stands for
  \<open>T8_ENABLE_DEBUG\<close>: with it, every \<open>T8_ASSERT\<close> is checked and aborts the run when
  it fails; without it, assertions are compiled out.
\<close>

record 'e adapt_forest =
  set_adapt_fn :: "nat \<Rightarrow> nat \<Rightarrow> 'e list \<Rightarrow> int"
  set_replace_fn :: bool
  set_adapt_recursive :: bool
  enable_debug :: bool

datatype adapt_abort =
  Assertion_Failed | Index_Out_Of_Range | Uninitialised_Read | Abort_Not_Reached

text \<open>
  The three places that call the predicate: the loop over the source elements in
  \<open>t8_forest_adapt\<close> and the two recursive functions (bookkeeping of the model).
\<close>

datatype caller = In_Adapt | In_Refine_Recursive | In_Coarsen_Recursive

text \<open>Where an element of the output array came from (bookkeeping of the model).\<close>

datatype origin = From_Keep | From_Refine | From_Coarsen

text \<open>
  The state of the engine while it adapts one tree.  \<open>telements\<close> is the element array
  of the new tree; the counter \<open>el_inserted\<close> of the source always equals its
  \<open>elem_count\<close> (asserted at the entry of \<open>t8_forest_adapt_coarsen_recursive\<close>) and is
  modelled as its length.  \<open>elements_from\<close> is the pointer buffer of that name:
  \<open>None\<close> is a slot never written.  \<open>adapt_calls\<close> and \<open>replace_calls\<close> log the
  invocations of the two callbacks, oldest first; an invocation of the predicate is
  logged with its caller, the number of elements and the elements.  \<open>provenance\<close> runs parallel to
  \<open>telements\<close>, and \<open>coarsened\<close> logs the provenance of every window that the
  recursive coarsening loop replaced by its parent.
\<close>

record 'e adapt_state =
  telements :: "'e list"
  el_considered :: nat
  el_coarsen :: nat
  refine_list :: "'e list"
  elements_from :: "'e option list"
  adapt_calls :: "(caller \<times> nat \<times> 'e list) list"
  replace_calls :: "('e list \<times> 'e list) list"
  provenance :: "origin list"
  coarsened :: "origin list list"

abbreviation el_inserted :: "'e adapt_state \<Rightarrow> nat" where
  "el_inserted s \<equiv> length (telements s)"

type_synonym 'e outcome = "(adapt_abort \<times> 'e adapt_state) + 'e adapt_state"

definition log_adapt :: "caller \<Rightarrow> nat \<Rightarrow> 'e list \<Rightarrow> 'e adapt_state \<Rightarrow> 'e adapt_state" where
  "log_adapt who n elems s = s\<lparr>adapt_calls := adapt_calls s @ [(who, n, elems)]\<rparr>"

definition log_replace ::
  "'e adapt_forest \<Rightarrow> 'e list \<Rightarrow> 'e list \<Rightarrow> 'e adapt_state \<Rightarrow> 'e adapt_state" where
  "log_replace forest outgoing incoming s =
     (if set_replace_fn forest
      then s\<lparr>replace_calls := replace_calls s @ [(outgoing, incoming)]\<rparr> else s)"

definition push_elements :: "origin \<Rightarrow> 'e list \<Rightarrow> 'e adapt_state \<Rightarrow> 'e adapt_state" where
  "push_elements og es s =
     s\<lparr>telements := telements s @ es,
       provenance := provenance s @ replicate (length es) og\<rparr>"

subsection \<open>\<open>t8_forest_adapt_coarsen_recursive\<close>\<close>

text \<open>
  The inner \<open>for\<close> loop: the window \<open>telement[pos .. pos + num_children)\<close> is a family
  candidate when the child id of its \<open>i\<close>-th element is \<open>i\<close>.
\<close>

definition child_ids_match :: "'e eclass_scheme \<Rightarrow> 'e list \<Rightarrow> bool" where
  "child_ids_match ts fam = (map (t8_element_child_id ts) fam = [0..<length fam])"

text \<open>
  The body of the \<open>while\<close> loop when the family is coarsened (lines 74 to 87): the
  array is cut by \<open>num_children - 1\<close> elements and the slot at \<open>pos\<close>, which is
  \<open>fam[0]\<close>, receives the parent; the replace callback is called with the family and
  the parent.
\<close>

definition coarsen_family ::
  "'e adapt_forest \<Rightarrow> 'e eclass_scheme \<Rightarrow> nat \<Rightarrow> int \<Rightarrow> 'e list \<Rightarrow> 'e adapt_state
     \<Rightarrow> 'e adapt_state" where
  "coarsen_family forest ts num_children pos fam s =
     (let s1 = log_adapt In_Coarsen_Recursive num_children fam s;
          keep = el_inserted s1 - (num_children - 1);
          replace = t8_element_parent ts (hd fam);
          s2 = s1\<lparr>telements := (take keep (telements s1))[nat pos := replace],
                  provenance := (take keep (provenance s1))[nat pos := From_Coarsen],
                  coarsened := coarsened s1
                     @ [take num_children (drop (nat pos) (provenance s1))]\<rparr>
      in log_replace forest fam [replace] s2)"

text \<open>
  The \<open>while\<close> loop.  \<open>element\<close> always points to the last slot of the array (at entry
  by line 51, afterwards \<open>fam[0]\<close>, the slot at \<open>pos\<close>, which is the last one after the
  truncation).  \<open>isfamily\<close> is 1 whenever the loop condition is evaluated after a
  coarsening, and the \<open>else\<close> branch leaves the loop.  A loop that does not return
  has the value \<open>None\<close>.
\<close>

partial_function (option) coarsen_recursive_loop ::
  "'e adapt_forest \<Rightarrow> nat \<Rightarrow> 'e eclass_scheme \<Rightarrow> nat \<Rightarrow> nat \<Rightarrow> int \<Rightarrow> 'e adapt_state
     \<Rightarrow> 'e outcome option" where
  "coarsen_recursive_loop forest ltreeid ts num_children el_coarsen_arg pos s =
     (if pos \<ge> int el_coarsen_arg
         \<and> int (t8_element_child_id ts (last (telements s))) = int num_children - 1
      then
        (let fam = take num_children (drop (nat pos) (telements s));
             isfamily = (length fam = num_children \<and> child_ids_match ts fam)
         in if enable_debug forest \<and> isfamily \<and> \<not> t8_element_is_family ts fam
            then Some (Inl (Assertion_Failed, s))
            else if isfamily
            then
              if set_adapt_fn forest ltreeid num_children fam < 0
              then coarsen_recursive_loop forest ltreeid ts num_children el_coarsen_arg
                     (pos - (int num_children - 1))
                     (coarsen_family forest ts num_children pos fam s)
              else Some (Inr (log_adapt In_Coarsen_Recursive num_children fam s))
            else Some (Inr s))
      else Some (Inr s))"

declare coarsen_recursive_loop.simps [code]

text \<open>
  The function: \<open>element\<close> is the last element of the array, which callers have just
  pushed; in an empty array its index is out of range.
\<close>

definition t8_forest_adapt_coarsen_recursive ::
  "'e adapt_forest \<Rightarrow> nat \<Rightarrow> 'e eclass_scheme \<Rightarrow> nat \<Rightarrow> 'e adapt_state \<Rightarrow> 'e outcome option" where
  "t8_forest_adapt_coarsen_recursive forest ltreeid ts el_coarsen_arg s =
     (if telements s = [] then Some (Inl (Index_Out_Of_Range, s))
      else
        (let element = last (telements s);
             num_children = t8_element_num_children ts element
         in if enable_debug forest
               \<and> int (t8_element_child_id ts element) \<noteq> int num_children - 1
            then Some (Inl (Assertion_Failed, s))
            else coarsen_recursive_loop forest ltreeid ts num_children el_coarsen_arg
                   (int (el_inserted s) - int num_children) s))"

subsection \<open>\<open>t8_forest_adapt_refine_recursive\<close>\<close>

text \<open>
  \<open>elem_list\<close> is the field \<open>refine_list\<close> of the state; \<open>sc_list_pop\<close> takes its head
  and \<open>sc_list_prepend\<close>, called for the children in reverse order, puts them in front
  in their order.  \<open>refine_expand\<close> is the branch of the loop body that refines the
  popped element \<open>el\<close> (lines 124 to 135), \<open>refine_commit\<close> the branch that appends it
  to the array (lines 138 to 141); \<open>rest\<close> is the list after the pop.
\<close>

definition refine_expand ::
  "'e adapt_forest \<Rightarrow> 'e eclass_scheme \<Rightarrow> 'e \<Rightarrow> 'e list \<Rightarrow> 'e adapt_state \<Rightarrow> 'e adapt_state" where
  "refine_expand forest ts el rest s =
     (let num_children = t8_element_num_children ts el;
          children = t8_element_children ts el num_children;
          s1 = log_adapt In_Refine_Recursive 1 [el] (s\<lparr>refine_list := rest\<rparr>);
          s2 = log_replace forest [el] children s1
      in s2\<lparr>refine_list := children @ refine_list s2\<rparr>)"

definition refine_commit :: "'e \<Rightarrow> 'e list \<Rightarrow> 'e adapt_state \<Rightarrow> 'e adapt_state" where
  "refine_commit el rest s =
     push_elements From_Refine [el] (log_adapt In_Refine_Recursive 1 [el] (s\<lparr>refine_list := rest\<rparr>))"

text \<open>
  The function has no assertion and never aborts; when the loop does not end, the value
  is \<open>None\<close>.
\<close>

partial_function (option) t8_forest_adapt_refine_recursive ::
  "'e adapt_forest \<Rightarrow> nat \<Rightarrow> 'e eclass_scheme \<Rightarrow> 'e adapt_state \<Rightarrow> 'e adapt_state option" where
  "t8_forest_adapt_refine_recursive forest ltreeid ts s =
     (case refine_list s of
        [] \<Rightarrow> Some s
      | el # rest \<Rightarrow>
          if set_adapt_fn forest ltreeid 1 [el] > 0
          then t8_forest_adapt_refine_recursive forest ltreeid ts
                 (refine_expand forest ts el rest s)
          else t8_forest_adapt_refine_recursive forest ltreeid ts
                 (refine_commit el rest s))"

declare t8_forest_adapt_refine_recursive.simps [code]

subsection \<open>\<open>t8_forest_adapt\<close>: one tree\<close>

text \<open>
  The \<open>for\<close> loop over \<open>zz\<close> (lines 213 to 221): it stores the pointer to the source
  element \<open>el_considered + zz\<close> in \<open>elements_from[zz]\<close> and leaves at the first element
  whose child id is not \<open>zz\<close>.  The result is the final \<open>zz\<close> and the buffer.
\<close>

function scan_window ::
  "'e eclass_scheme \<Rightarrow> 'e list \<Rightarrow> nat \<Rightarrow> nat \<Rightarrow> nat \<Rightarrow> 'e option list
     \<Rightarrow> nat \<times> 'e option list" where
  "scan_window ts telements_from considered num_children zz buf =
     (if zz < num_children \<and> considered + zz < length telements_from
      then
        (let buf' = buf[zz := Some (telements_from ! (considered + zz))]
         in if t8_element_child_id ts (telements_from ! (considered + zz)) \<noteq> zz
            then (zz, buf')
            else scan_window ts telements_from considered num_children (zz + 1) buf')
      else (zz, buf))"
  by pat_completeness auto
termination
  by (relation "measure (\<lambda>(ts, telements_from, considered, num_children, zz, buf).
        num_children - zz)") auto

declare scan_window.simps [simp del]

text \<open>Continue with the state of a run that neither aborted nor diverged.\<close>

definition and_then ::
  "'e outcome option \<Rightarrow> ('e adapt_state \<Rightarrow> 'e outcome option) \<Rightarrow> 'e outcome option" where
  "and_then r f =
     (case r of None \<Rightarrow> None | Some (Inl a) \<Rightarrow> Some (Inl a) | Some (Inr s) \<Rightarrow> f s)"

definition advance :: "nat \<Rightarrow> 'e adapt_state \<Rightarrow> 'e outcome option" where
  "advance n s = Some (Inr (s\<lparr>el_considered := el_considered s + n\<rparr>))"

text \<open>
  The elements that the slots of a pointer buffer point to; \<open>None\<close> when one of the
  slots was never written.
\<close>

fun read_pointers :: "'e option list \<Rightarrow> 'e list option" where
  "read_pointers [] = Some []"
| "read_pointers (None # ps) = None"
| "read_pointers (Some e # ps) = map_option ((#) e) (read_pointers ps)"

text \<open>
  The three branches of a turn of the \<open>while\<close> loop of a tree, after the predicate
  has been called: \<open>el\<close> is \<open>elements_from[0]\<close> and \<open>s\<close> the state after the call.
  Refinement (lines 232 to 270):
\<close>

definition step_refine ::
  "'e adapt_forest \<Rightarrow> 'e eclass_scheme \<Rightarrow> nat \<Rightarrow> nat \<Rightarrow> 'e \<Rightarrow> 'e adapt_state
     \<Rightarrow> 'e outcome option" where
  "step_refine forest tscheme tt num_children el s =
     (let children = t8_element_children tscheme el num_children
      in if set_adapt_recursive forest
         then
           (let s2 = s\<lparr>el_coarsen := el_inserted s + num_children\<rparr>;
                s3 = s2\<lparr>refine_list := children @ refine_list s2\<rparr>;
                s4 = log_replace forest [el] children s3
            in and_then
                 (map_option Inr (t8_forest_adapt_refine_recursive forest tt tscheme s4))
                 (advance 1))
         else
           (let s2 = push_elements From_Refine children s;
                s3 = log_replace forest [el] children s2
            in advance 1 s3))"

text \<open>
  Coarsening (lines 271 to 289).  The replace callback is handed the first
  \<open>num_children\<close> slots of \<open>elements_from\<close>, whatever they hold.
\<close>

definition step_coarsen ::
  "'e adapt_forest \<Rightarrow> 'e eclass_scheme \<Rightarrow> nat \<Rightarrow> nat \<Rightarrow> 'e \<Rightarrow> 'e adapt_state
     \<Rightarrow> 'e outcome option" where
  "step_coarsen forest tscheme tt num_children el s =
     (let parent = t8_element_parent tscheme el;
          s2 = push_elements From_Coarsen [parent] s
      in case (if set_replace_fn forest
               then read_pointers (take num_children (elements_from s)) else Some []) of
           None \<Rightarrow> Some (Inl (Uninitialised_Read, s2))
         | Some family \<Rightarrow>
             (let s3 = log_replace forest family [parent] s2
              in and_then
                   (if set_adapt_recursive forest
                       \<and> int (t8_element_child_id tscheme parent) = int num_children - 1
                    then t8_forest_adapt_coarsen_recursive forest tt tscheme (el_coarsen s3) s3
                    else Some (Inr s3))
                   (advance num_children)))"

text \<open>Neither (lines 290 to 305):\<close>

definition step_keep ::
  "'e adapt_forest \<Rightarrow> 'e eclass_scheme \<Rightarrow> nat \<Rightarrow> nat \<Rightarrow> 'e \<Rightarrow> 'e adapt_state
     \<Rightarrow> 'e outcome option" where
  "step_keep forest tscheme tt num_children el s =
     (let s2 = push_elements From_Keep [el] s
      in and_then
           (if set_adapt_recursive forest
               \<and> int (t8_element_child_id tscheme el) = int num_children - 1
            then t8_forest_adapt_coarsen_recursive forest tt tscheme (el_coarsen s2) s2
            else Some (Inr s2))
           (advance 1))"

text \<open>
  One turn of the \<open>while\<close> loop of a tree (lines 209 to 305).  The predicate and
  \<open>t8_element_is_family\<close> read the first \<open>num_elements\<close> slots of \<open>elements_from\<close>.
  The buffer has \<open>num_children\<close> slots; with \<open>num_children = 0\<close> the read of
  \<open>elements_from[0]\<close> is out of range.
\<close>

definition adapt_step ::
  "'e adapt_forest \<Rightarrow> 'e eclass_scheme \<Rightarrow> nat \<Rightarrow> 'e list \<Rightarrow> nat \<Rightarrow> 'e adapt_state
     \<Rightarrow> 'e outcome option" where
  "adapt_step forest tscheme tt telements_from num_children s =
     (let (zz, buf) = scan_window tscheme telements_from (el_considered s) num_children 0
                        (elements_from s);
          is_family = (zz = num_children);
          num_elements = (if zz \<noteq> num_children then 1 else num_children);
          s0 = s\<lparr>elements_from := buf\<rparr>
      in case read_pointers (take num_elements buf) of
           None \<Rightarrow> Some (Inl (Uninitialised_Read, s0))
         | Some window \<Rightarrow>
             if enable_debug forest \<and> is_family \<and> \<not> t8_element_is_family tscheme window
             then Some (Inl (Assertion_Failed, s0))
             else
               (let refine = set_adapt_fn forest tt num_elements window;
                    s1 = log_adapt In_Adapt num_elements window s0
                in if enable_debug forest \<and> \<not> is_family \<and> refine < 0
                   then Some (Inl (Assertion_Failed, s1))
                   else
                     (case window of
                        [] \<Rightarrow> Some (Inl (Index_Out_Of_Range, s1))
                      | el # _ \<Rightarrow>
                          if refine > 0 then step_refine forest tscheme tt num_children el s1
                          else if refine < 0
                          then step_coarsen forest tscheme tt num_children el s1
                          else step_keep forest tscheme tt num_children el s1)))"

text \<open>The \<open>while (el_considered < num_el_from)\<close> loop.\<close>

partial_function (option) adapt_loop ::
  "'e adapt_forest \<Rightarrow> 'e eclass_scheme \<Rightarrow> nat \<Rightarrow> 'e list \<Rightarrow> nat \<Rightarrow> 'e adapt_state
     \<Rightarrow> 'e outcome option" where
  "adapt_loop forest tscheme tt telements_from num_children s =
     (if el_considered s < length telements_from
      then
        (case adapt_step forest tscheme tt telements_from num_children s of
           None \<Rightarrow> None
         | Some (Inl a) \<Rightarrow> Some (Inl a)
         | Some (Inr s') \<Rightarrow> adapt_loop forest tscheme tt telements_from num_children s')
      else Some (Inr s))"

declare adapt_loop.simps [code]

text \<open>
  The state at the start of a tree (lines 198 to 207): the three counters are 0, the
  new tree has no elements yet, the refine list is empty and the buffer has
  \<open>num_children\<close> slots that were never written.
\<close>

definition initial_state :: "nat \<Rightarrow> 'e adapt_state" where
  "initial_state num_children =
     \<lparr>telements = [], el_considered = 0, el_coarsen = 0, refine_list = [],
      elements_from = replicate num_children None, adapt_calls = [], replace_calls = [],
      provenance = [], coarsened = []\<rparr>"

text \<open>
  The body of the loop over the trees, for one tree, up to the test of the refine list
  (lines 194 to 316).  \<open>num_children\<close> is read from the source element 0 (lines 202 to
  205).  In an empty source tree this index is out of range, and the source has no
  guard of its own: the only check is the assertion of the index function
  \<open>t8_element_array_index\<close>, which is not among the sources and is compiled in with
  \<open>T8_ENABLE_DEBUG\<close> only.  With assertions the run stops at this read.  Without them
  \<open>num_children\<close> is computed from what lies behind the array; whatever its value,
  the \<open>while\<close> loop has no turn (\<open>el_considered < num_el_from\<close> is \<open>0 < 0\<close>), the two
  buffers are freed unread (the model gives them no slot), and the tree is completed
  with no element.  A refine list that is not empty after the loop reaches
  \<open>SC_ABORT_NOT_REACHED\<close>.
\<close>

definition t8_forest_adapt_tree ::
  "'e adapt_forest \<Rightarrow> 'e eclass_scheme \<Rightarrow> nat \<Rightarrow> 'e list \<Rightarrow> 'e outcome option" where
  "t8_forest_adapt_tree forest tscheme tt telements_from =
     (case telements_from of
        [] \<Rightarrow>
          if enable_debug forest then Some (Inl (Index_Out_Of_Range, initial_state 0))
          else Some (Inr (initial_state 0))
      | first # _ \<Rightarrow>
          (let num_children = t8_element_num_children tscheme first
           in and_then
                (adapt_loop forest tscheme tt telements_from num_children
                   (initial_state num_children))
                (\<lambda>s. if set_adapt_recursive forest \<and> refine_list s \<noteq> []
                     then Some (Inl (Abort_Not_Reached, s)) else Some (Inr s))))"

subsection \<open>\<open>t8_forest_adapt\<close>: the loop over the trees\<close>

text \<open>
  A tree has an element class, its elements and \<open>elements_offset\<close>.  The counts
  \<open>el_offset\<close> and \<open>local_num_elements\<close> have the type \<open>t8_locidx_t\<close>; they count
  elements held in memory and are modelled as natural numbers.  The element arrays of
  the new forest are empty when \<open>t8_forest_adapt\<close> is entered.
\<close>

record ('c, 'e) t8_tree =
  eclass :: 'c
  elements :: "'e list"
  elements_offset :: nat

record ('c, 'e) t8_forest =
  trees :: "('c, 'e) t8_tree list"
  local_num_elements :: nat

fun adapt_trees ::
  "'e adapt_forest \<Rightarrow> ('c \<Rightarrow> 'e eclass_scheme) \<Rightarrow> ('c, 'e) t8_tree list \<Rightarrow> nat \<Rightarrow> nat \<Rightarrow> nat
     \<Rightarrow> ('c, 'e) t8_tree list \<Rightarrow> (adapt_abort + ('c, 'e) t8_forest) option" where
  "adapt_trees forest eclass_schemes trees_from tt el_offset num [] =
     Some (Inr \<lparr>trees = [], local_num_elements = num\<rparr>)"
| "adapt_trees forest eclass_schemes trees_from tt el_offset num (tree # rest) =
     (if tt \<ge> length trees_from then Some (Inl Index_Out_Of_Range)
      else
        (case t8_forest_adapt_tree forest (eclass_schemes (eclass tree)) tt
                (elements (trees_from ! tt)) of
           None \<Rightarrow> None
         | Some (Inl (a, s)) \<Rightarrow> Some (Inl a)
         | Some (Inr s) \<Rightarrow>
             (case adapt_trees forest eclass_schemes trees_from (tt + 1)
                     (el_offset + el_inserted s) (num + el_inserted s) rest of
                None \<Rightarrow> None
              | Some (Inl a) \<Rightarrow> Some (Inl a)
              | Some (Inr f) \<Rightarrow>
                  Some (Inr (f\<lparr>trees :=
                    tree\<lparr>elements := telements s, elements_offset := el_offset\<rparr>
                      # trees f\<rparr>)))))"

definition t8_forest_adapt ::
  "'e adapt_forest \<Rightarrow> ('c \<Rightarrow> 'e eclass_scheme) \<Rightarrow> ('c, 'e) t8_tree list
     \<Rightarrow> ('c, 'e) t8_tree list \<Rightarrow> (adapt_abort + ('c, 'e) t8_forest) option" where
  "t8_forest_adapt forest eclass_schemes forest_trees trees_from =
     (if enable_debug forest \<and> length forest_trees \<noteq> length trees_from
      then Some (Inl Assertion_Failed)
      else adapt_trees forest eclass_schemes trees_from 0 0 0 forest_trees)"

subsection \<open>A scheme to run the engine on: the line class\<close>

text \<open>
  Modelled from the spec: the element schemes of the repository (\<open>t8_default\<close>) are
  not among the sources.  The spec's line class has two children per element, and an
  element is determined by its ancestry chain.  An element is written here as the list
  of the child ids on the path from the root element to it (\<open>False\<close> for child 0,
  \<open>True\<close> for child 1); the root element is the empty path and the level is the
  length of the path.  \<open>compare\<close> is the order of the space-filling curve: the order
  of the paths, an ancestor before its descendants.  A family is child 0 and child 1
  of one parent, in this order.
\<close>

fun line_compare :: "bool list \<Rightarrow> bool list \<Rightarrow> int" where
  "line_compare [] [] = 0"
| "line_compare [] (y # ys) = - 1"
| "line_compare (x # xs) [] = 1"
| "line_compare (x # xs) (y # ys) =
     (if x = y then line_compare xs ys else if y then - 1 else 1)"

definition line_is_family :: "bool list list \<Rightarrow> bool" where
  "line_is_family fam =
     (case fam of
        [a, b] \<Rightarrow> a \<noteq> [] \<and> b \<noteq> [] \<and> butlast a = butlast b \<and> \<not> last a \<and> last b
      | _ \<Rightarrow> False)"

definition line_scheme :: "nat \<Rightarrow> bool list eclass_scheme" where
  "line_scheme maxlevel =
     \<lparr>t8_element_num_children = (\<lambda>e. 2),
      t8_element_child_id = (\<lambda>e. if e \<noteq> [] \<and> last e then 1 else 0),
      t8_element_parent = butlast,
      t8_element_child = (\<lambda>e i. e @ [i = 1]),
      t8_element_is_family = line_is_family,
      t8_element_level = length,
      t8_element_maxlevel = maxlevel,
      t8_element_compare = line_compare\<rparr>"

subsection \<open>Notions used in the properties\<close>

text \<open>
  The window of a turn of the \<open>while\<close> loop, stated on the source array: at the
  position \<open>c\<close> there is a family candidate when \<open>num_children\<close> elements follow whose
  child ids are 0, 1, ..., and then the window has these elements; otherwise it has
  the element at \<open>c\<close> only.  Lemma \<open>adapt_step_eq\<close> below shows that this is what the
  loop over \<open>zz\<close> computes.
\<close>

definition family_candidate :: "'e eclass_scheme \<Rightarrow> 'e list \<Rightarrow> nat \<Rightarrow> nat \<Rightarrow> bool" where
  "family_candidate ts src c k \<longleftrightarrow> c + k \<le> length src \<and> child_ids_match ts (take k (drop c src))"

definition adapt_window :: "'e eclass_scheme \<Rightarrow> 'e list \<Rightarrow> nat \<Rightarrow> nat \<Rightarrow> 'e list" where
  "adapt_window ts src c k = take (if family_candidate ts src c k then k else 1) (drop c src)"

text \<open>The state in which a run ended, completed or aborted.\<close>

definition final_state :: "'e outcome \<Rightarrow> 'e adapt_state" where
  "final_state r = (case r of Inl (a, s) \<Rightarrow> s | Inr s \<Rightarrow> s)"

text \<open>The end of a turn: a run that has not aborted moves \<open>el_considered\<close> forward.\<close>

definition finish_turn :: "nat \<Rightarrow> 'e outcome \<Rightarrow> 'e outcome" where
  "finish_turn n r =
     (case r of Inl a \<Rightarrow> Inl a | Inr s \<Rightarrow> Inr (s\<lparr>el_considered := el_considered s + n\<rparr>))"


text \<open>Forests to run the engine on: the callbacks and the two switches.\<close>

definition adapt_with ::
  "(nat \<Rightarrow> nat \<Rightarrow> 'e list \<Rightarrow> int) \<Rightarrow> bool \<Rightarrow> bool \<Rightarrow> bool \<Rightarrow> 'e adapt_forest" where
  "adapt_with fn replace recursive debug =
     \<lparr>set_adapt_fn = fn, set_replace_fn = replace, set_adapt_recursive = recursive,
      enable_debug = debug\<rparr>"

text \<open>
  What the engine relies on in a tree of a committed forest: the tree is not empty, its
  elements have one and the same positive number of children, and wherever
  \<open>num_children\<close> consecutive elements carry the child ids 0, 1, ... they are a
  family (its leaves tile the part of the curve that they cover, so such elements are
  the children of one parent).
\<close>

definition candidates_are_families :: "'e eclass_scheme \<Rightarrow> 'e list \<Rightarrow> nat \<Rightarrow> bool" where
  "candidates_are_families ts src k \<longleftrightarrow>
     (\<forall>c\<in>set [0..<length src].
        family_candidate ts src c k \<longrightarrow> t8_element_is_family ts (take k (drop c src)))"

definition committed_tree :: "'e eclass_scheme \<Rightarrow> 'e list \<Rightarrow> bool" where
  "committed_tree ts src \<longleftrightarrow>
     src \<noteq> [] \<and> 0 < t8_element_num_children ts (hd src)
     \<and> (\<forall>e\<in>set src. t8_element_num_children ts e = t8_element_num_children ts (hd src))
     \<and> candidates_are_families ts src (t8_element_num_children ts (hd src))"

text \<open>Two source trees of the line class, and the trees of a new forest for them.\<close>

definition two_trees_from :: "(unit, bool list) t8_tree list" where
  "two_trees_from =
     [\<lparr>eclass = (), elements = [[False, False], [False, True], [True]], elements_offset = 0\<rparr>,
      \<lparr>eclass = (), elements = [[]], elements_offset = 3\<rparr>]"

definition two_trees_new :: "(unit, bool list) t8_tree list" where
  "two_trees_new =
     [\<lparr>eclass = (), elements = [], elements_offset = 0\<rparr>,
      \<lparr>eclass = (), elements = [], elements_offset = 0\<rparr>]"




text \<open>The sequence in which every element is replaced by its \<open>k\<close> children.\<close>

definition refine_all :: "'e eclass_scheme \<Rightarrow> nat \<Rightarrow> 'e list \<Rightarrow> 'e list" where
  "refine_all ts k src = concat (map (\<lambda>e. t8_element_children ts e k) src)"








text \<open>
  An element is an ancestor of another one, or equal to it, when it is reached from it
  by taking the parent as often as the levels differ (the spec's ancestry).  Two
  elements are unrelated when neither is an ancestor of the other nor equal to it.
\<close>

definition ancestor_eq :: "'e eclass_scheme \<Rightarrow> 'e \<Rightarrow> 'e \<Rightarrow> bool" where
  "ancestor_eq ts a b \<longleftrightarrow>
     t8_element_level ts a \<le> t8_element_level ts b
     \<and> (t8_element_parent ts ^^ (t8_element_level ts b - t8_element_level ts a)) b = a"




text \<open>
  A bound on the number of predicate calls that the recursive refinement spends on an
  element that is \<open>d\<close> levels above the maximum level, with \<open>k\<close> children per
  element; and the sum of these bounds over a list of elements.
\<close>

fun refine_weight :: "nat \<Rightarrow> nat \<Rightarrow> nat" where
  "refine_weight k 0 = 1"
| "refine_weight k (Suc d) = 1 + k * refine_weight k d"

definition refine_measure :: "'e eclass_scheme \<Rightarrow> nat \<Rightarrow> 'e list \<Rightarrow> nat" where
  "refine_measure ts k es =
     sum_list (map (\<lambda>e. refine_weight k (t8_element_maxlevel ts - t8_element_level ts e)) es)"


definition refine_last :: "'e eclass_scheme \<Rightarrow> nat \<Rightarrow> 'e list \<Rightarrow> origin list \<Rightarrow> bool" where
  "refine_last ts k tel prov \<longleftrightarrow>
     (tel \<noteq> [] \<and> last prov = From_Refine
        \<longrightarrow> int (t8_element_child_id ts (last tel)) = int k - 1)"




text \<open>
  Predicates and a source tree to run the engine on: refine every single element below
  a level, coarsen every window of \<open>k\<close> elements, and the four elements of level 2
  of the line class.
\<close>

definition refine_below :: "nat \<Rightarrow> nat \<Rightarrow> nat \<Rightarrow> bool list list \<Rightarrow> int" where
  "refine_below l tt n es = (if n = 1 \<and> length (hd es) < l then 1 else 0)"

definition coarsen_families :: "nat \<Rightarrow> nat \<Rightarrow> nat \<Rightarrow> 'e list \<Rightarrow> int" where
  "coarsen_families k tt n es = (if n = k then - 1 else 0)"

definition uniform_level2 :: "bool list list" where
  "uniform_level2 = [[False, False], [False, True], [True, False], [True, True]]"


text \<open>
  Written from the spec's words, not from the source: the turns of the spec's per-tree
  algorithm (section 4.4) for \<open>k\<close> children per element.  At the cursor \<open>c\<close> the
  predicate is called with the window there; the cursor then moves on by \<open>k\<close> when
  the predicate asks for a coarsening and by 1 otherwise.  The result lists the
  predicate calls of the turns from \<open>c\<close> on.  The properties compare it with the
  calls that the loop of the source makes.
\<close>

function spec_adapt_turns ::
  "(nat \<Rightarrow> 'e list \<Rightarrow> int) \<Rightarrow> 'e eclass_scheme \<Rightarrow> 'e list \<Rightarrow> nat \<Rightarrow> nat
     \<Rightarrow> (caller \<times> nat \<times> 'e list) list" where
  "spec_adapt_turns fn ts src k c =
     (if 0 < k \<and> c < length src
      then
        (let window = adapt_window ts src c k;
             refine = fn (length window) window
         in (In_Adapt, length window, window)
              # spec_adapt_turns fn ts src k (c + (if refine < 0 then k else 1)))
      else [])"
  by pat_completeness auto
termination
  by (relation "measure (\<lambda>(fn, ts, src, k, c). length src - c)") auto

declare spec_adapt_turns.simps [simp del]

text \<open>
  Two variants of the line class above, to run the engine on a scheme in which not all
  elements have the same number of children: in the first every element but
  \<open>[False, False]\<close> claims seven children, in the second the element \<open>[True]\<close>
  claims three.
\<close>

definition seven_but_first :: "bool list eclass_scheme" where
  "seven_but_first =
     (line_scheme 3)\<lparr>t8_element_num_children := (\<lambda>e. if e = [False, False] then 2 else 7)\<rparr>"




section \<open>Properties\<close>

subsection \<open>Induction along the runs of the three loops\<close>

lemma refine_recursive_induct_aux:
  assumes run: "t8_forest_adapt_refine_recursive forest' tt' ts' s = Some s'"
    and empty: "\<And>s. refine_list s = [] \<Longrightarrow> P s s"
    and expand: "\<And>s el rest s'. \<lbrakk>refine_list s = el # rest; 0 < set_adapt_fn forest tt 1 [el];
        t8_forest_adapt_refine_recursive forest tt ts (refine_expand forest ts el rest s) = Some s';
        P (refine_expand forest ts el rest s) s'\<rbrakk> \<Longrightarrow> P s s'"
    and commit: "\<And>s el rest s'. \<lbrakk>refine_list s = el # rest; \<not> 0 < set_adapt_fn forest tt 1 [el];
        t8_forest_adapt_refine_recursive forest tt ts (refine_commit el rest s) = Some s';
        P (refine_commit el rest s) s'\<rbrakk> \<Longrightarrow> P s s'"
  shows "forest' = forest \<and> tt' = tt \<and> ts' = ts
          \<longrightarrow> t8_forest_adapt_refine_recursive forest tt ts s = Some s' \<and> P s s'"
proof -
  let ?Q = "\<lambda>forest' tt' ts' s s'. forest' = forest \<and> tt' = tt \<and> ts' = ts
          \<longrightarrow> t8_forest_adapt_refine_recursive forest tt ts s = Some s' \<and> P s s'"
  have "?Q forest' tt' ts' s s'"
  proof (rule t8_forest_adapt_refine_recursive.raw_induct [where P = ?Q, OF _ run], goal_cases)
    case (1 f forest' tt' ts' s s')
    note IH = "1"(1) and hyp = "1"(2)
    show ?case
    proof (intro impI, elim conjE)
      assume eq: "forest' = forest" "tt' = tt" "ts' = ts"
      note unf = t8_forest_adapt_refine_recursive.simps [of forest tt ts s]
      show "t8_forest_adapt_refine_recursive forest tt ts s = Some s' \<and> P s s'"
      proof (cases "refine_list s")
        case Nil
        have "t8_forest_adapt_refine_recursive forest tt ts s = Some s"
          using Nil by (simp add: unf)
        moreover have "s' = s" using hyp Nil by simp
        ultimately show ?thesis using empty [OF Nil] by simp
      next
        case (Cons el rest)
        show ?thesis
        proof (cases "0 < set_adapt_fn forest tt 1 [el]")
          case True
          with hyp Cons eq
          have "f forest tt ts (refine_expand forest ts el rest s) = Some s'" by simp
          from IH [OF this] have
            "t8_forest_adapt_refine_recursive forest tt ts (refine_expand forest ts el rest s)
               = Some s' \<and> P (refine_expand forest ts el rest s) s'" by simp
          with Cons True show ?thesis
            by (simp add: unf expand)
        next
          case False
          with hyp Cons eq
          have "f forest tt ts (refine_commit el rest s) = Some s'" by simp
          from IH [OF this] have
            "t8_forest_adapt_refine_recursive forest tt ts (refine_commit el rest s)
               = Some s' \<and> P (refine_commit el rest s) s'" by simp
          with Cons False show ?thesis
            by (simp add: unf commit)
        qed
      qed
    qed
  qed
  then show ?thesis .
qed

lemma refine_recursive_induct [consumes 1, case_names Empty Expand Commit]:
  assumes run: "t8_forest_adapt_refine_recursive forest tt ts s = Some s'"
    and empty: "\<And>s. refine_list s = [] \<Longrightarrow> P s s"
    and expand: "\<And>s el rest s'. \<lbrakk>refine_list s = el # rest; 0 < set_adapt_fn forest tt 1 [el];
        t8_forest_adapt_refine_recursive forest tt ts (refine_expand forest ts el rest s) = Some s';
        P (refine_expand forest ts el rest s) s'\<rbrakk> \<Longrightarrow> P s s'"
    and commit: "\<And>s el rest s'. \<lbrakk>refine_list s = el # rest; \<not> 0 < set_adapt_fn forest tt 1 [el];
        t8_forest_adapt_refine_recursive forest tt ts (refine_commit el rest s) = Some s';
        P (refine_commit el rest s) s'\<rbrakk> \<Longrightarrow> P s s'"
  shows "P s s'"
proof -
  have "forest = forest \<and> tt = tt \<and> ts = ts
          \<longrightarrow> t8_forest_adapt_refine_recursive forest tt ts s = Some s' \<and> P s s'"
  proof (rule refine_recursive_induct_aux [OF run], goal_cases)
    case 1 then show ?case by (rule empty)
  next
    case 2 then show ?case by (rule expand)
  next
    case 3 then show ?case by (rule commit)
  qed
  then show ?thesis by simp
qed


lemma coarsen_loop_induct_aux:
  assumes run: "coarsen_recursive_loop forest' tt' ts' nc' ec' pos s = Some r"
    and exit: "\<And>pos s. \<not> (int ec \<le> pos
        \<and> int (t8_element_child_id ts (last (telements s))) = int nc - 1) \<Longrightarrow> P pos s (Inr s)"
    and abort: "\<And>pos s fam. \<lbrakk>int ec \<le> pos;
        int (t8_element_child_id ts (last (telements s))) = int nc - 1;
        fam = take nc (drop (nat pos) (telements s)); length fam = nc; child_ids_match ts fam;
        enable_debug forest; \<not> t8_element_is_family ts fam\<rbrakk>
        \<Longrightarrow> P pos s (Inl (Assertion_Failed, s))"
    and stop: "\<And>pos s fam. \<lbrakk>int ec \<le> pos;
        int (t8_element_child_id ts (last (telements s))) = int nc - 1;
        fam = take nc (drop (nat pos) (telements s));
        \<not> (length fam = nc \<and> child_ids_match ts fam)\<rbrakk> \<Longrightarrow> P pos s (Inr s)"
    and decline: "\<And>pos s fam. \<lbrakk>int ec \<le> pos;
        int (t8_element_child_id ts (last (telements s))) = int nc - 1;
        fam = take nc (drop (nat pos) (telements s)); length fam = nc; child_ids_match ts fam;
        enable_debug forest \<longrightarrow> t8_element_is_family ts fam;
        \<not> set_adapt_fn forest tt nc fam < 0\<rbrakk> \<Longrightarrow> P pos s (Inr (log_adapt In_Coarsen_Recursive nc fam s))"
    and coarsen: "\<And>pos s fam r. \<lbrakk>int ec \<le> pos;
        int (t8_element_child_id ts (last (telements s))) = int nc - 1;
        fam = take nc (drop (nat pos) (telements s)); length fam = nc; child_ids_match ts fam;
        enable_debug forest \<longrightarrow> t8_element_is_family ts fam;
        set_adapt_fn forest tt nc fam < 0;
        coarsen_recursive_loop forest tt ts nc ec (pos - (int nc - 1))
          (coarsen_family forest ts nc pos fam s) = Some r;
        P (pos - (int nc - 1)) (coarsen_family forest ts nc pos fam s) r\<rbrakk> \<Longrightarrow> P pos s r"
  shows "forest' = forest \<and> tt' = tt \<and> ts' = ts \<and> nc' = nc \<and> ec' = ec
          \<longrightarrow> coarsen_recursive_loop forest tt ts nc ec pos s = Some r \<and> P pos s r"
proof -
  let ?Q = "\<lambda>forest' tt' ts' nc' ec' pos s r.
      forest' = forest \<and> tt' = tt \<and> ts' = ts \<and> nc' = nc \<and> ec' = ec
          \<longrightarrow> coarsen_recursive_loop forest tt ts nc ec pos s = Some r \<and> P pos s r"
  have "?Q forest' tt' ts' nc' ec' pos s r"
  proof (rule coarsen_recursive_loop.raw_induct [where P = ?Q, OF _ run], goal_cases)
    case (1 f forest' tt' ts' nc' ec' pos s r)
    note IH = "1"(1) and hyp = "1"(2)
    show ?case
    proof (intro impI, elim conjE)
      assume eq: "forest' = forest" "tt' = tt" "ts' = ts" "nc' = nc" "ec' = ec"
      define fam where "fam = take nc (drop (nat pos) (telements s))"
      define C where "C \<longleftrightarrow> int ec \<le> pos
          \<and> int (t8_element_child_id ts (last (telements s))) = int nc - 1"
      define I where "I \<longleftrightarrow> length fam = nc \<and> child_ids_match ts fam"
      define D where "D \<longleftrightarrow> enable_debug forest \<and> \<not> t8_element_is_family ts fam"
      define N where "N \<longleftrightarrow> set_adapt_fn forest tt nc fam < 0"
      have unf: "coarsen_recursive_loop forest tt ts nc ec pos s =
          (if C then if I \<and> D then Some (Inl (Assertion_Failed, s))
             else if I then if N then coarsen_recursive_loop forest tt ts nc ec
                     (pos - (int nc - 1)) (coarsen_family forest ts nc pos fam s)
                  else Some (Inr (log_adapt In_Coarsen_Recursive nc fam s))
             else Some (Inr s)
           else Some (Inr s))"
        by (subst coarsen_recursive_loop.simps) (auto simp: Let_def fam_def C_def I_def D_def N_def)
      have hyp': "(if C then if I \<and> D then Some (Inl (Assertion_Failed, s))
             else if I then if N then f forest tt ts nc ec
                     (pos - (int nc - 1)) (coarsen_family forest ts nc pos fam s)
                  else Some (Inr (log_adapt In_Coarsen_Recursive nc fam s))
             else Some (Inr s)
           else Some (Inr s)) = Some r"
        using hyp unfolding eq Let_def fam_def C_def I_def D_def N_def
        by (auto split: if_splits)
      show "coarsen_recursive_loop forest tt ts nc ec pos s = Some r \<and> P pos s r"
      proof (cases C)
        case False
        with unf hyp' have "coarsen_recursive_loop forest tt ts nc ec pos s = Some (Inr s)"
          "r = Inr s" by simp_all
        then show ?thesis using exit [of pos s] False by (simp add: C_def)
      next
        case cond: True
        then have c1: "int ec \<le> pos"
          and c2: "int (t8_element_child_id ts (last (telements s))) = int nc - 1"
          by (simp_all add: C_def)
        show ?thesis
        proof (cases I)
          case False
          with cond unf hyp' have "coarsen_recursive_loop forest tt ts nc ec pos s = Some (Inr s)"
            "r = Inr s" by simp_all
          then show ?thesis using stop [OF c1 c2 fam_def] False by (simp add: I_def)
        next
          case isfam: True
          then have i1: "length fam = nc" and i2: "child_ids_match ts fam"
            by (simp_all add: I_def)
          show ?thesis
          proof (cases D)
            case True
            with cond isfam unf hyp' have
              "coarsen_recursive_loop forest tt ts nc ec pos s = Some (Inl (Assertion_Failed, s))"
              "r = Inl (Assertion_Failed, s)" by simp_all
            then show ?thesis using abort [OF c1 c2 fam_def i1 i2] True by (simp add: D_def)
          next
            case ok: False
            then have d: "enable_debug forest \<longrightarrow> t8_element_is_family ts fam"
              by (simp add: D_def)
            show ?thesis
            proof (cases N)
              case False
              with cond isfam ok unf hyp' have
                "coarsen_recursive_loop forest tt ts nc ec pos s = Some (Inr (log_adapt In_Coarsen_Recursive nc fam s))"
                "r = Inr (log_adapt In_Coarsen_Recursive nc fam s)" by simp_all
              then show ?thesis using decline [OF c1 c2 fam_def i1 i2 d] False
                by (simp add: N_def)
            next
              case True
              then have n: "set_adapt_fn forest tt nc fam < 0" by (simp add: N_def)
              have "f forest tt ts nc ec (pos - (int nc - 1))
                      (coarsen_family forest ts nc pos fam s) = Some r"
                using hyp' True ok isfam cond by simp
              from IH [OF this] have ih:
                "coarsen_recursive_loop forest tt ts nc ec (pos - (int nc - 1))
                      (coarsen_family forest ts nc pos fam s) = Some r"
                "P (pos - (int nc - 1)) (coarsen_family forest ts nc pos fam s) r" by simp_all
              have "coarsen_recursive_loop forest tt ts nc ec pos s = Some r"
                using cond isfam ok True ih(1) unf by simp
              then show ?thesis
                using coarsen [OF c1 c2 fam_def i1 i2 d n ih] by simp
            qed
          qed
        qed
      qed
    qed
  qed
  then show ?thesis .
qed



lemma coarsen_loop_induct [consumes 1, case_names Exit Abort Stop Decline Coarsen]:
  assumes run: "coarsen_recursive_loop forest tt ts nc ec pos s = Some r"
    and exit: "\<And>pos s. \<not> (int ec \<le> pos
        \<and> int (t8_element_child_id ts (last (telements s))) = int nc - 1) \<Longrightarrow> P pos s (Inr s)"
    and abort: "\<And>pos s fam. \<lbrakk>int ec \<le> pos;
        int (t8_element_child_id ts (last (telements s))) = int nc - 1;
        fam = take nc (drop (nat pos) (telements s)); length fam = nc; child_ids_match ts fam;
        enable_debug forest; \<not> t8_element_is_family ts fam\<rbrakk>
        \<Longrightarrow> P pos s (Inl (Assertion_Failed, s))"
    and stop: "\<And>pos s fam. \<lbrakk>int ec \<le> pos;
        int (t8_element_child_id ts (last (telements s))) = int nc - 1;
        fam = take nc (drop (nat pos) (telements s));
        \<not> (length fam = nc \<and> child_ids_match ts fam)\<rbrakk> \<Longrightarrow> P pos s (Inr s)"
    and decline: "\<And>pos s fam. \<lbrakk>int ec \<le> pos;
        int (t8_element_child_id ts (last (telements s))) = int nc - 1;
        fam = take nc (drop (nat pos) (telements s)); length fam = nc; child_ids_match ts fam;
        enable_debug forest \<longrightarrow> t8_element_is_family ts fam;
        \<not> set_adapt_fn forest tt nc fam < 0\<rbrakk> \<Longrightarrow> P pos s (Inr (log_adapt In_Coarsen_Recursive nc fam s))"
    and coarsen: "\<And>pos s fam r. \<lbrakk>int ec \<le> pos;
        int (t8_element_child_id ts (last (telements s))) = int nc - 1;
        fam = take nc (drop (nat pos) (telements s)); length fam = nc; child_ids_match ts fam;
        enable_debug forest \<longrightarrow> t8_element_is_family ts fam;
        set_adapt_fn forest tt nc fam < 0;
        coarsen_recursive_loop forest tt ts nc ec (pos - (int nc - 1))
          (coarsen_family forest ts nc pos fam s) = Some r;
        P (pos - (int nc - 1)) (coarsen_family forest ts nc pos fam s) r\<rbrakk> \<Longrightarrow> P pos s r"
  shows "P pos s r"
proof -
  have "forest = forest \<and> tt = tt \<and> ts = ts \<and> nc = nc \<and> ec = ec
          \<longrightarrow> coarsen_recursive_loop forest tt ts nc ec pos s = Some r \<and> P pos s r"
  proof (rule coarsen_loop_induct_aux [OF run], goal_cases)
    case 1 then show ?case by (rule exit)
  next
    case 2 then show ?case by (rule abort)
  next
    case 3 then show ?case by (rule stop)
  next
    case 4 then show ?case by (rule decline)
  next
    case 5 then show ?case by (rule coarsen)
  qed
  then show ?thesis by simp
qed


subsection \<open>Lists\<close>


subsection \<open>The window of a turn\<close>

lemma scan_window_inv:
  assumes "scan_window ts src c k zz buf = (zz', buf')"
    and "zz \<le> k" and "length buf = k"
    and "\<forall>i<zz. buf ! i = Some (src ! (c + i)) \<and> t8_element_child_id ts (src ! (c + i)) = i
           \<and> c + i < length src"
  shows "zz' \<le> k \<and> length buf' = k
    \<and> (\<forall>i<zz'. buf' ! i = Some (src ! (c + i)) \<and> t8_element_child_id ts (src ! (c + i)) = i
           \<and> c + i < length src)
    \<and> (zz' < k \<longrightarrow> length src \<le> c + zz'
           \<or> (t8_element_child_id ts (src ! (c + zz')) \<noteq> zz' \<and> buf' ! zz' = Some (src ! (c + zz'))))"
  using assms
proof (induction ts src c k zz buf rule: scan_window.induct)
  case (1 ts src c k zz buf)
  show ?case
  proof (cases "zz < k \<and> c + zz < length src")
    case False
    with "1.prems" show ?thesis
      by (auto simp: scan_window.simps [of ts src c k zz buf])
  next
    case True
    let ?b = "buf[zz := Some (src ! (c + zz))]"
    show ?thesis
    proof (cases "t8_element_child_id ts (src ! (c + zz)) \<noteq> zz")
      case True
      with \<open>zz < k \<and> c + zz < length src\<close> "1.prems" show ?thesis
        by (auto simp: scan_window.simps [of ts src c k zz buf] Let_def nth_list_update)
    next
      case False
      with True "1.prems" have run: "scan_window ts src c k (zz + 1) ?b = (zz', buf')"
        by (simp add: scan_window.simps [of ts src c k zz buf] Let_def)
      have inv: "\<forall>i<zz + 1. ?b ! i = Some (src ! (c + i))
            \<and> t8_element_child_id ts (src ! (c + i)) = i \<and> c + i < length src"
        using True False "1.prems" by (auto simp: nth_list_update less_Suc_eq)
      show ?thesis
        using "1.IH" [OF True refl _ run] True False "1.prems" inv by simp
    qed
  qed
qed

lemma read_pointers_map_Some [simp]: "read_pointers (map Some xs) = Some xs"
  by (induction xs) auto

lemma scan_window_start:
  assumes len: "length buf = k" and k: "0 < k" and c: "c < length src"
  shows "\<exists>zz buf'. scan_window ts src c k 0 buf = (zz, buf')
    \<and> length buf' = k
    \<and> (zz = k \<longleftrightarrow> family_candidate ts src c k)
    \<and> (family_candidate ts src c k \<longrightarrow> take k buf' = map Some (take k (drop c src)))
    \<and> take 1 buf' = [Some (src ! c)]"
proof -
  obtain zz buf' where run: "scan_window ts src c k 0 buf = (zz, buf')"
    by (cases "scan_window ts src c k 0 buf")
  from scan_window_inv [OF run _ len] have
    zz: "zz \<le> k" and len': "length buf' = k"
    and pre: "\<And>i. i < zz \<Longrightarrow> buf' ! i = Some (src ! (c + i))
           \<and> t8_element_child_id ts (src ! (c + i)) = i \<and> c + i < length src"
    and stop: "zz < k \<Longrightarrow> length src \<le> c + zz
           \<or> (t8_element_child_id ts (src ! (c + zz)) \<noteq> zz \<and> buf' ! zz = Some (src ! (c + zz)))"
    by simp_all
  have fam: "zz = k \<longleftrightarrow> family_candidate ts src c k"
  proof
    assume "zz = k"
    have "c + (k - 1) < length src"
      using pre [of "k - 1"] k \<open>zz = k\<close> by simp
    with k have in_range: "c + k \<le> length src" by arith
    have "map (t8_element_child_id ts) (take k (drop c src)) = [0..<k]"
      using pre \<open>zz = k\<close> in_range by (intro nth_equalityI) simp_all
    with in_range show "family_candidate ts src c k"
      by (simp add: family_candidate_def child_ids_match_def)
  next
    assume f: "family_candidate ts src c k"
    show "zz = k"
    proof (rule ccontr)
      assume "zz \<noteq> k"
      with zz have lt: "zz < k" by simp
      from f have in_range: "c + k \<le> length src"
        by (simp add: family_candidate_def)
      then have lenw: "length (take k (drop c src)) = k" by simp
      from f have ids: "map (t8_element_child_id ts) (take k (drop c src)) = [0..<k]"
        unfolding family_candidate_def child_ids_match_def lenw by simp
      from ids lt in_range have "t8_element_child_id ts (src ! (c + zz)) = zz"
        by (metis (no_types, lifting) add.left_neutral length_map length_upt diff_zero
            nth_map nth_upt nth_take nth_drop le_add_diff_inverse add_leD1)
      with stop [OF lt] in_range lt show False by simp
    qed
  qed
  have full: "take k buf' = map Some (take k (drop c src))" if "family_candidate ts src c k"
  proof -
    from that fam have "zz = k" by simp
    have "c + (k - 1) < length src"
      using pre [of "k - 1"] k \<open>zz = k\<close> by simp
    with k have "c + k \<le> length src" by arith
    then show ?thesis
      using pre \<open>zz = k\<close> len' by (intro nth_equalityI) simp_all
  qed
  have first: "buf' ! 0 = Some (src ! c)"
  proof (cases "zz = 0")
    case True
    with stop k c show ?thesis by simp
  next
    case False
    with pre [of 0] show ?thesis by simp
  qed
  with len' k have "take 1 buf' = [Some (src ! c)]"
    by (cases buf') simp_all
  with run len' fam full show ?thesis by blast
qed

lemma adapt_window_hd:
  assumes "0 < k" "c < length src"
  shows "\<exists>rest. adapt_window ts src c k = src ! c # rest"
proof -
  from assms(1) obtain n where n: "(if family_candidate ts src c k then k else 1) = Suc n"
    by (cases "family_candidate ts src c k"; cases k) auto
  from assms(2) have "drop c src = src ! c # drop (Suc c) src"
    by (simp add: Cons_nth_drop_Suc)
  then show ?thesis
    unfolding adapt_window_def n by simp
qed

lemma adapt_step_eq:
  assumes len: "length (elements_from s) = k" and k: "0 < k" and c: "el_considered s < length src"
  shows "\<exists>buf. length buf = k
    \<and> (family_candidate ts src (el_considered s) k
          \<longrightarrow> take k buf = map Some (adapt_window ts src (el_considered s) k))
    \<and> adapt_step forest ts tt src k s =
      (let fam = family_candidate ts src (el_considered s) k;
           n = (if fam then k else 1);
           window = adapt_window ts src (el_considered s) k;
           s0 = s\<lparr>elements_from := buf\<rparr>;
           s1 = log_adapt In_Adapt n window s0;
           refine = set_adapt_fn forest tt n window
       in if enable_debug forest \<and> fam \<and> \<not> t8_element_is_family ts window
          then Some (Inl (Assertion_Failed, s0))
          else if enable_debug forest \<and> \<not> fam \<and> refine < 0
          then Some (Inl (Assertion_Failed, s1))
          else if refine > 0 then step_refine forest ts tt k (src ! el_considered s) s1
          else if refine < 0 then step_coarsen forest ts tt k (src ! el_considered s) s1
          else step_keep forest ts tt k (src ! el_considered s) s1)"
proof -
  let ?c = "el_considered s"
  obtain zz buf where run: "scan_window ts src ?c k 0 (elements_from s) = (zz, buf)"
    and len': "length buf = k"
    and fam: "zz = k \<longleftrightarrow> family_candidate ts src ?c k"
    and full: "family_candidate ts src ?c k \<Longrightarrow> take k buf = map Some (take k (drop ?c src))"
    and first: "take 1 buf = [Some (src ! ?c)]"
    using scan_window_start [OF len k c, where ts = ts] by blast
  obtain rest where hd: "adapt_window ts src ?c k = src ! ?c # rest"
    using adapt_window_hd [OF k c] by blast
  have wsingle: "adapt_window ts src ?c k = [src ! ?c]" if "\<not> family_candidate ts src ?c k"
    using that c by (simp add: adapt_window_def take_Suc_conv_app_nth hd_drop_conv_nth
        flip: Cons_nth_drop_Suc)
  have wfam: "adapt_window ts src ?c k = take k (drop ?c src)" if "family_candidate ts src ?c k"
    using that by (simp add: adapt_window_def)
  show ?thesis
  proof (cases "family_candidate ts src ?c k")
    case True
    with fam have zz: "zz = k" by simp
    from full [OF True] wfam [OF True]
    have ptr: "read_pointers (take k buf) = Some (adapt_window ts src ?c k)" by simp
    have "adapt_step forest ts tt src k s =
      (let window = adapt_window ts src ?c k;
           s0 = s\<lparr>elements_from := buf\<rparr>;
           s1 = log_adapt In_Adapt k window s0;
           refine = set_adapt_fn forest tt k window
       in if enable_debug forest \<and> \<not> t8_element_is_family ts window
          then Some (Inl (Assertion_Failed, s0))
          else if refine > 0 then step_refine forest ts tt k (src ! ?c) s1
          else if refine < 0 then step_coarsen forest ts tt k (src ! ?c) s1
          else step_keep forest ts tt k (src ! ?c) s1)"
      unfolding adapt_step_def run by (simp add: zz ptr Let_def hd)
    with True len' full wfam show ?thesis
      by (intro exI [of _ buf]) (simp add: Let_def)
  next
    case False
    with fam have zz: "zz \<noteq> k" by simp
    from first wsingle [OF False]
    have ptr: "read_pointers (take 1 buf) = Some (adapt_window ts src ?c k)" by simp
    have "adapt_step forest ts tt src k s =
      (let window = adapt_window ts src ?c k;
           s0 = s\<lparr>elements_from := buf\<rparr>;
           s1 = log_adapt In_Adapt 1 window s0;
           refine = set_adapt_fn forest tt 1 window
       in if enable_debug forest \<and> refine < 0
          then Some (Inl (Assertion_Failed, s1))
          else if refine > 0 then step_refine forest ts tt k (src ! ?c) s1
          else if refine < 0 then step_coarsen forest ts tt k (src ! ?c) s1
          else step_keep forest ts tt k (src ! ?c) s1)"
      unfolding adapt_step_def run by (simp add: zz ptr Let_def hd del: One_nat_def)
    with False len' show ?thesis
      by (intro exI [of _ buf]) (simp add: Let_def)
  qed
qed

subsection \<open>The fields of the state along the steps\<close>

lemma log_adapt_fields [simp]:
  "telements (log_adapt who n es s) = telements s"
  "el_considered (log_adapt who n es s) = el_considered s"
  "el_coarsen (log_adapt who n es s) = el_coarsen s"
  "refine_list (log_adapt who n es s) = refine_list s"
  "elements_from (log_adapt who n es s) = elements_from s"
  "adapt_calls (log_adapt who n es s) = adapt_calls s @ [(who, n, es)]"
  "replace_calls (log_adapt who n es s) = replace_calls s"
  "provenance (log_adapt who n es s) = provenance s"
  "coarsened (log_adapt who n es s) = coarsened s"
  by (simp_all add: log_adapt_def)

lemma log_replace_fields [simp]:
  "telements (log_replace forest old new s) = telements s"
  "el_considered (log_replace forest old new s) = el_considered s"
  "el_coarsen (log_replace forest old new s) = el_coarsen s"
  "refine_list (log_replace forest old new s) = refine_list s"
  "elements_from (log_replace forest old new s) = elements_from s"
  "adapt_calls (log_replace forest old new s) = adapt_calls s"
  "replace_calls (log_replace forest old new s)
     = replace_calls s @ (if set_replace_fn forest then [(old, new)] else [])"
  "provenance (log_replace forest old new s) = provenance s"
  "coarsened (log_replace forest old new s) = coarsened s"
  by (simp_all add: log_replace_def)

lemma push_elements_fields [simp]:
  "telements (push_elements og es s) = telements s @ es"
  "el_considered (push_elements og es s) = el_considered s"
  "el_coarsen (push_elements og es s) = el_coarsen s"
  "refine_list (push_elements og es s) = refine_list s"
  "elements_from (push_elements og es s) = elements_from s"
  "adapt_calls (push_elements og es s) = adapt_calls s"
  "replace_calls (push_elements og es s) = replace_calls s"
  "provenance (push_elements og es s) = provenance s @ replicate (length es) og"
  "coarsened (push_elements og es s) = coarsened s"
  by (simp_all add: push_elements_def)

lemma refine_expand_fields [simp]:
  "telements (refine_expand forest ts el rest s) = telements s"
  "el_considered (refine_expand forest ts el rest s) = el_considered s"
  "el_coarsen (refine_expand forest ts el rest s) = el_coarsen s"
  "refine_list (refine_expand forest ts el rest s)
     = t8_element_children ts el (t8_element_num_children ts el) @ rest"
  "elements_from (refine_expand forest ts el rest s) = elements_from s"
  "adapt_calls (refine_expand forest ts el rest s) = adapt_calls s @ [(In_Refine_Recursive, 1, [el])]"
  "replace_calls (refine_expand forest ts el rest s) = replace_calls s
     @ (if set_replace_fn forest
        then [([el], t8_element_children ts el (t8_element_num_children ts el))] else [])"
  "provenance (refine_expand forest ts el rest s) = provenance s"
  "coarsened (refine_expand forest ts el rest s) = coarsened s"
  by (simp_all add: refine_expand_def Let_def)

lemma refine_commit_fields [simp]:
  "telements (refine_commit el rest s) = telements s @ [el]"
  "el_considered (refine_commit el rest s) = el_considered s"
  "el_coarsen (refine_commit el rest s) = el_coarsen s"
  "refine_list (refine_commit el rest s) = rest"
  "elements_from (refine_commit el rest s) = elements_from s"
  "adapt_calls (refine_commit el rest s) = adapt_calls s @ [(In_Refine_Recursive, 1, [el])]"
  "replace_calls (refine_commit el rest s) = replace_calls s"
  "provenance (refine_commit el rest s) = provenance s @ [From_Refine]"
  "coarsened (refine_commit el rest s) = coarsened s"
  by (simp_all add: refine_commit_def)

lemma coarsen_family_fields [simp]:
  "telements (coarsen_family forest ts nc pos fam s)
     = (take (el_inserted s - (nc - 1)) (telements s))[nat pos := t8_element_parent ts (hd fam)]"
  "el_considered (coarsen_family forest ts nc pos fam s) = el_considered s"
  "el_coarsen (coarsen_family forest ts nc pos fam s) = el_coarsen s"
  "refine_list (coarsen_family forest ts nc pos fam s) = refine_list s"
  "elements_from (coarsen_family forest ts nc pos fam s) = elements_from s"
  "adapt_calls (coarsen_family forest ts nc pos fam s) = adapt_calls s @ [(In_Coarsen_Recursive, nc, fam)]"
  "replace_calls (coarsen_family forest ts nc pos fam s) = replace_calls s
     @ (if set_replace_fn forest then [(fam, [t8_element_parent ts (hd fam)])] else [])"
  "provenance (coarsen_family forest ts nc pos fam s)
     = (take (el_inserted s - (nc - 1)) (provenance s))[nat pos := From_Coarsen]"
  "coarsened (coarsen_family forest ts nc pos fam s)
     = coarsened s @ [take nc (drop (nat pos) (provenance s))]"
  by (simp_all add: coarsen_family_def Let_def)

lemma final_state_simps [simp]:
  "final_state (Inl (a, s)) = s" "final_state (Inr s) = s"
  by (simp_all add: final_state_def)

text \<open>What the recursive refinement leaves alone, and what it appends.\<close>

lemma refine_recursive_frame:
  assumes "t8_forest_adapt_refine_recursive forest tt ts s = Some s'"
  shows "el_considered s' = el_considered s \<and> el_coarsen s' = el_coarsen s
    \<and> elements_from s' = elements_from s \<and> coarsened s' = coarsened s
    \<and> refine_list s' = []
    \<and> (\<exists>more. telements s' = telements s @ more
          \<and> provenance s' = provenance s @ replicate (length more) From_Refine)
    \<and> (\<exists>calls. adapt_calls s' = adapt_calls s @ calls)
    \<and> (\<exists>calls. replace_calls s' = replace_calls s @ calls)"
  using assms
proof (induction rule: refine_recursive_induct)
  case (Empty s)
  then show ?case by simp
next
  case (Expand s el rest s')
  then show ?case by auto
next
  case (Commit s el rest s')
  then obtain more where "telements s' = telements s @ el # more"
    "provenance s' = provenance s @ replicate (length (el # more)) From_Refine"
    by auto
  then have "\<exists>more. telements s' = telements s @ more
          \<and> provenance s' = provenance s @ replicate (length more) From_Refine"
    by blast
  with Commit show ?case by auto
qed

lemma coarsen_loop_frame:
  assumes "coarsen_recursive_loop forest tt ts nc ec pos s = Some r"
  shows "el_considered (final_state r) = el_considered s
    \<and> el_coarsen (final_state r) = el_coarsen s
    \<and> elements_from (final_state r) = elements_from s
    \<and> refine_list (final_state r) = refine_list s
    \<and> (\<exists>calls. adapt_calls (final_state r) = adapt_calls s @ calls)
    \<and> (\<exists>calls. replace_calls (final_state r) = replace_calls s @ calls)"
  using assms
  by (induction rule: coarsen_loop_induct) auto


subsection \<open>The turns of the loop over the source elements\<close>




lemma finish_turn_fields [simp]:
  "telements (final_state (finish_turn n r)) = telements (final_state r)"
  "el_coarsen (final_state (finish_turn n r)) = el_coarsen (final_state r)"
  "refine_list (final_state (finish_turn n r)) = refine_list (final_state r)"
  "elements_from (final_state (finish_turn n r)) = elements_from (final_state r)"
  "adapt_calls (final_state (finish_turn n r)) = adapt_calls (final_state r)"
  "replace_calls (final_state (finish_turn n r)) = replace_calls (final_state r)"
  "provenance (final_state (finish_turn n r)) = provenance (final_state r)"
  "coarsened (final_state (finish_turn n r)) = coarsened (final_state r)"
  by (auto simp: finish_turn_def final_state_def split: sum.splits)

lemma finish_turn_Inr [simp]:
  "finish_turn n (Inr s) = Inr (s\<lparr>el_considered := el_considered s + n\<rparr>)"
  "finish_turn n r = Inr s' \<longleftrightarrow> (\<exists>s. r = Inr s \<and> s' = s\<lparr>el_considered := el_considered s + n\<rparr>)"
  by (auto simp: finish_turn_def split: sum.splits)






subsection \<open>The loop over the trees\<close>

lemma adapt_trees_offsets:
  "adapt_trees forest schemes trees_from tt off num rest = Some (Inr f) \<Longrightarrow>
     length (trees f) = length rest
     \<and> local_num_elements f = num + sum_list (map (\<lambda>t. length (elements t)) (trees f))
     \<and> (\<forall>j<length (trees f). elements_offset (trees f ! j)
           = off + sum_list (map (\<lambda>t. length (elements t)) (take j (trees f))))"
proof (induction rest arbitrary: tt off num f)
  case Nil
  then show ?case by auto
next
  case (Cons tree rest)
  from Cons.prems obtain s f' where
    tree: "t8_forest_adapt_tree forest (schemes (eclass tree)) tt (elements (trees_from ! tt))
             = Some (Inr s)"
    and rest: "adapt_trees forest schemes trees_from (tt + 1) (off + el_inserted s)
                 (num + el_inserted s) rest = Some (Inr f')"
    and f: "f = f'\<lparr>trees := tree\<lparr>elements := telements s, elements_offset := off\<rparr> # trees f'\<rparr>"
    by (auto split: if_splits option.splits sum.splits prod.splits)
  note ih = Cons.IH [OF rest]
  have len: "length (trees f) = length (tree # rest)"
    using ih f by simp
  have num: "local_num_elements f = num + sum_list (map (\<lambda>t. length (elements t)) (trees f))"
    using ih f by simp
  have offs: "elements_offset (trees f ! j)
                = off + sum_list (map (\<lambda>t. length (elements t)) (take j (trees f)))"
    if "j < length (trees f)" for j
  proof (cases j)
    case 0
    then show ?thesis using f by simp
  next
    case (Suc i)
    with that f have "i < length (trees f')" by simp
    with ih have "elements_offset (trees f' ! i)
        = off + el_inserted s + sum_list (map (\<lambda>t. length (elements t)) (take i (trees f')))"
      by simp
    with Suc f show ?thesis by simp
  qed
  from len num offs show ?case by blast
qed

text \<open>
  Claim C9.  When \<open>t8_forest_adapt\<close> completes, the \<open>elements_offset\<close> of every tree
  of the new forest is the sum of the element counts of the trees before it, and
  \<open>local_num_elements\<close> is the sum of the element counts of all its trees.
\<close>

theorem adapt_offsets_are_prefix_sums:
  assumes "t8_forest_adapt forest schemes forest_trees trees_from = Some (Inr f)"
  shows "(\<forall>j<length (trees f). elements_offset (trees f ! j)
            = sum_list (map (\<lambda>t. length (elements t)) (take j (trees f))))
       \<and> local_num_elements f = sum_list (map (\<lambda>t. length (elements t)) (trees f))"
proof -
  from assms have "adapt_trees forest schemes trees_from 0 0 0 forest_trees = Some (Inr f)"
    by (simp add: t8_forest_adapt_def split: if_splits)
  from adapt_trees_offsets [OF this] show ?thesis by simp
qed

lemma two_trees_run:
  "t8_forest_adapt
     \<lparr>set_adapt_fn = (\<lambda>tt n es. if tt = 0 then 1 else 0), set_replace_fn = False,
      set_adapt_recursive = False, enable_debug = True\<rparr>
     (\<lambda>c. line_scheme 3)
     [\<lparr>eclass = (), elements = [], elements_offset = 0\<rparr>,
      \<lparr>eclass = (), elements = [], elements_offset = 0\<rparr>]
     [\<lparr>eclass = (), elements = [[False], [True]], elements_offset = 0\<rparr>,
      \<lparr>eclass = (), elements = [[]], elements_offset = 2\<rparr>]
   = Some (Inr \<lparr>trees =
       [\<lparr>eclass = (),
         elements = [[False, False], [False, True], [True, False], [True, True]],
         elements_offset = 0\<rparr>,
        \<lparr>eclass = (), elements = [[]], elements_offset = 4\<rparr>],
       local_num_elements = 5\<rparr>)"
  by code_simp

theorem adapt_offsets_are_prefix_sums_witness:
  "t8_forest_adapt
     \<lparr>set_adapt_fn = (\<lambda>tt n es. if tt = 0 then 1 else 0), set_replace_fn = False,
      set_adapt_recursive = False, enable_debug = True\<rparr>
     (\<lambda>c. line_scheme 3)
     [\<lparr>eclass = (), elements = [], elements_offset = 0\<rparr>,
      \<lparr>eclass = (), elements = [], elements_offset = 0\<rparr>]
     [\<lparr>eclass = (), elements = [[False], [True]], elements_offset = 0\<rparr>,
      \<lparr>eclass = (), elements = [[]], elements_offset = 2\<rparr>]
   = Some (Inr \<lparr>trees =
       [\<lparr>eclass = (),
         elements = [[False, False], [False, True], [True, False], [True, True]],
         elements_offset = 0\<rparr>,
        \<lparr>eclass = (), elements = [[]], elements_offset = 4\<rparr>],
       local_num_elements = 5\<rparr>)
   \<and> (4::nat) = sum_list (map (\<lambda>t. length (elements t))
        (take 1 [\<lparr>eclass = (),
                 elements = [[False, False], [False, True], [True, False], [True, True]],
                 elements_offset = 0\<rparr>,
                \<lparr>eclass = (), elements = [[]], elements_offset = 4\<rparr>]))
   \<and> (5::nat) = sum_list (map (\<lambda>t. length (elements t))
        [\<lparr>eclass = (),
          elements = [[False, False], [False, True], [True, False], [True, True]],
          elements_offset = 0\<rparr>,
         \<lparr>eclass = (), elements = [[]], elements_offset = 4\<rparr>])"
  using adapt_offsets_are_prefix_sums [OF two_trees_run] two_trees_run by simp

subsection \<open>A predicate that keeps every element\<close>

lemma candidates_are_familiesD:
  assumes "candidates_are_families ts src k" "0 < k" "family_candidate ts src c k"
  shows "t8_element_is_family ts (take k (drop c src))"
proof -
  from assms(2,3) have "c < length src" by (simp add: family_candidate_def)
  with assms(1,3) show ?thesis by (simp add: candidates_are_families_def)
qed

lemma coarsen_loop_keep_all:
  assumes zero: "\<forall>n es. set_adapt_fn forest tt n es = 0"
  shows "\<exists>r. coarsen_recursive_loop forest tt ts nc ec pos s = Some r
          \<and> telements (final_state r) = telements s
          \<and> ((enable_debug forest \<longrightarrow>
                (length (take nc (drop (nat pos) (telements s))) = nc
                 \<and> child_ids_match ts (take nc (drop (nat pos) (telements s)))
                 \<longrightarrow> t8_element_is_family ts (take nc (drop (nat pos) (telements s)))))
               \<longrightarrow> (\<exists>s'. r = Inr s'))"
  using zero
  by (subst coarsen_recursive_loop.simps) (simp add: Let_def)

lemma step_keep_all:
  assumes zero: "\<forall>n es. set_adapt_fn forest tt n es = 0"
    and tel: "telements s = take c src" and c: "c < length src"
    and k: "0 < k"
    and dbg: "enable_debug forest \<longrightarrow> candidates_are_families ts src k
                \<and> (\<forall>e\<in>set src. t8_element_num_children ts e = k)"
  shows "\<exists>s'. step_keep forest ts tt k (src ! c) s = Some (Inr s')
          \<and> telements s' = take (Suc c) src
          \<and> el_considered s' = el_considered s + 1
          \<and> elements_from s' = elements_from s \<and> refine_list s' = refine_list s"
proof (cases "set_adapt_recursive forest
                \<and> int (t8_element_child_id ts (src ! c)) = int k - 1")
  case False
  with tel c show ?thesis
    by (auto simp: step_keep_def Let_def and_then_def advance_def take_Suc_conv_app_nth)
next
  case True
  let ?s2 = "push_elements From_Keep [src ! c] s"
  let ?nc = "t8_element_num_children ts (src ! c)"
  let ?pos = "int (Suc c) - int ?nc"
  have tel2: "telements ?s2 = take (Suc c) src"
    using tel c by (simp add: take_Suc_conv_app_nth)
  from coarsen_loop_keep_all [OF zero, of ts ?nc "el_coarsen ?s2" ?pos ?s2]
  obtain r where run: "coarsen_recursive_loop forest tt ts ?nc (el_coarsen ?s2) ?pos ?s2 = Some r"
    and same: "telements (final_state r) = telements ?s2"
    and ok: "(enable_debug forest \<longrightarrow>
                (length (take ?nc (drop (nat ?pos) (telements ?s2))) = ?nc
                 \<and> child_ids_match ts (take ?nc (drop (nat ?pos) (telements ?s2)))
                 \<longrightarrow> t8_element_is_family ts (take ?nc (drop (nat ?pos) (telements ?s2)))))
               \<Longrightarrow> (\<exists>s'. r = Inr s')"
    by blast
  have "\<exists>s'. r = Inr s'"
  proof (rule ok, intro impI, elim conjE)
    assume d: "enable_debug forest"
      and l: "length (take ?nc (drop (nat ?pos) (telements ?s2))) = ?nc"
      and m: "child_ids_match ts (take ?nc (drop (nat ?pos) (telements ?s2)))"
    from d dbg c have nc: "?nc = k" and fams: "candidates_are_families ts src k" by simp_all
    from l have le: "k \<le> Suc c"
      unfolding tel2 nc using c k by (simp add: min_def split: if_splits)
    then have np: "nat (int (Suc c) - int k) = Suc c - k" by simp
    have w: "take k (drop (Suc c - k) (take (Suc c) src)) = take k (drop (Suc c - k) src)"
      using le c by (simp add: drop_take)
    have "family_candidate ts src (Suc c - k) k"
      using m le c unfolding tel2 nc np w by (simp add: family_candidate_def)
    with fams k have "t8_element_is_family ts (take k (drop (Suc c - k) src))"
      by (auto dest: candidates_are_familiesD)
    then show "t8_element_is_family ts (take ?nc (drop (nat ?pos) (telements ?s2)))"
      unfolding tel2 nc np w .
  qed
  then obtain s' where r: "r = Inr s'" by blast
  from coarsen_loop_frame [OF run] r same tel2
  have fr: "telements s' = take (Suc c) src" "el_considered s' = el_considered s"
    "elements_from s' = elements_from s" "refine_list s' = refine_list s" by simp_all
  have asrt: "\<not> (enable_debug forest
        \<and> int (t8_element_child_id ts (src ! c)) \<noteq> int ?nc - 1)"
    using True dbg c by auto
  have "t8_forest_adapt_coarsen_recursive forest tt ts (el_coarsen ?s2) ?s2 = Some (Inr s')"
    using run r asrt c tel
    by (simp add: t8_forest_adapt_coarsen_recursive_def Let_def)
  with True fr show ?thesis
    by (simp add: step_keep_def Let_def and_then_def advance_def)
qed

lemma adapt_loop_keep_all:
  assumes zero: "\<forall>n es. set_adapt_fn forest tt n es = 0"
    and k: "0 < k"
    and dbg: "enable_debug forest \<longrightarrow> candidates_are_families ts src k
                \<and> (\<forall>e\<in>set src. t8_element_num_children ts e = k)"
    and tel: "telements s = take (el_considered s) src"
    and buf: "length (elements_from s) = k"
    and rl: "refine_list s = []"
  shows "\<exists>s'. adapt_loop forest ts tt src k s = Some (Inr s')
          \<and> telements s' = src \<and> refine_list s' = []"
  using tel buf rl
proof (induction "length src - el_considered s" arbitrary: s)
  case 0
  then show ?case
    by (simp add: adapt_loop.simps [of forest ts tt src k s])
next
  case (Suc m)
  let ?c = "el_considered s"
  from Suc.hyps have c: "?c < length src" by simp
  from adapt_step_eq [OF Suc.prems(2) k c, of ts forest tt]
  obtain b where lb: "length b = k" and step: "adapt_step forest ts tt src k s =
      (let fam = family_candidate ts src ?c k;
           n = (if fam then k else 1);
           window = adapt_window ts src ?c k;
           s0 = s\<lparr>elements_from := b\<rparr>;
           s1 = log_adapt In_Adapt n window s0;
           refine = set_adapt_fn forest tt n window
       in if enable_debug forest \<and> fam \<and> \<not> t8_element_is_family ts window
          then Some (Inl (Assertion_Failed, s0))
          else if enable_debug forest \<and> \<not> fam \<and> refine < 0
          then Some (Inl (Assertion_Failed, s1))
          else if refine > 0 then step_refine forest ts tt k (src ! ?c) s1
          else if refine < 0 then step_coarsen forest ts tt k (src ! ?c) s1
          else step_keep forest ts tt k (src ! ?c) s1)"
    by blast
  let ?n = "if family_candidate ts src ?c k then k else 1"
  let ?s1 = "log_adapt In_Adapt ?n (adapt_window ts src ?c k) (s\<lparr>elements_from := b\<rparr>)"
  have noassert: "\<not> (enable_debug forest \<and> family_candidate ts src ?c k
      \<and> \<not> t8_element_is_family ts (adapt_window ts src ?c k))"
    using dbg k by (auto simp: adapt_window_def dest: candidates_are_familiesD)
  have step': "adapt_step forest ts tt src k s = step_keep forest ts tt k (src ! ?c) ?s1"
    using noassert zero unfolding step by (auto simp: Let_def)
  have "telements ?s1 = take ?c src" using Suc.prems(1) by simp
  from step_keep_all [OF zero this c k dbg]
  obtain s' where keep: "step_keep forest ts tt k (src ! ?c) ?s1 = Some (Inr s')"
    and s': "telements s' = take (Suc ?c) src" "el_considered s' = Suc ?c"
      "elements_from s' = b" "refine_list s' = []"
    using Suc.prems(3) by auto
  have "\<exists>s''. adapt_loop forest ts tt src k s' = Some (Inr s'')
          \<and> telements s'' = src \<and> refine_list s'' = []"
    using Suc.hyps s' lb by (intro Suc.hyps(1)) simp_all
  with c step' keep show ?case
    by (simp add: adapt_loop.simps [of forest ts tt src k s])
qed

lemma adapt_tree_identity:
  assumes zero: "\<forall>n es. set_adapt_fn forest tt n es = 0"
    and com: "committed_tree ts src"
  shows "\<exists>s. t8_forest_adapt_tree forest ts tt src = Some (Inr s) \<and> telements s = src"
proof -
  define k where "k = t8_element_num_children ts (hd src)"
  from com have src: "src \<noteq> []" and k: "0 < k"
    and dbg: "enable_debug forest \<longrightarrow> candidates_are_families ts src k
                \<and> (\<forall>e\<in>set src. t8_element_num_children ts e = k)"
    unfolding committed_tree_def k_def by blast+
  have "telements (initial_state k) = take (el_considered (initial_state k)) src"
    "length (elements_from (initial_state k)) = k" "refine_list (initial_state k) = []"
    by (simp_all add: initial_state_def)
  from adapt_loop_keep_all [OF zero k dbg this]
  obtain s where run: "adapt_loop forest ts tt src k (initial_state k) = Some (Inr s)"
    and s: "telements s = src" "refine_list s = []"
    by blast
  from src obtain first rest where fr: "src = first # rest" by (cases src) auto
  then have kf: "t8_element_num_children ts first = k" by (simp add: k_def)
  have "t8_forest_adapt_tree forest ts tt (first # rest) = Some (Inr s)"
    unfolding t8_forest_adapt_tree_def list.case Let_def kf
    using run s(2) by (simp add: and_then_def fr)
  with s(1) fr show ?thesis by simp
qed

lemma adapt_trees_identity:
  assumes zero: "\<forall>tt n es. set_adapt_fn forest tt n es = 0"
    and len: "tt + length rest = length trees_from"
    and com: "\<forall>j<length rest.
        committed_tree (schemes (eclass (rest ! j))) (elements (trees_from ! (tt + j)))"
  shows "\<exists>f. adapt_trees forest schemes trees_from tt off num rest = Some (Inr f)
          \<and> map elements (trees f) = map elements (drop tt trees_from)"
  using len com
proof (induction rest arbitrary: tt off num)
  case Nil
  then show ?case by simp
next
  case (Cons tree rest)
  from Cons.prems have tt: "tt < length trees_from" by simp
  from Cons.prems(2) have "committed_tree (schemes (eclass tree)) (elements (trees_from ! tt))"
    by fastforce
  from adapt_tree_identity [OF _ this, of forest tt] zero
  obtain s where s: "t8_forest_adapt_tree forest (schemes (eclass tree)) tt
      (elements (trees_from ! tt)) = Some (Inr s)" "telements s = elements (trees_from ! tt)"
    by blast
  have "\<forall>j<length rest.
        committed_tree (schemes (eclass (rest ! j))) (elements (trees_from ! (tt + 1 + j)))"
    using Cons.prems(2) by fastforce
  from Cons.IH [OF _ this, of "off + el_inserted s" "num + el_inserted s"] Cons.prems(1)
  obtain f where f: "adapt_trees forest schemes trees_from (tt + 1) (off + el_inserted s)
      (num + el_inserted s) rest = Some (Inr f)"
    "map elements (trees f) = map elements (drop (tt + 1) trees_from)"
    by auto
  from tt have "drop tt trees_from = trees_from ! tt # drop (tt + 1) trees_from"
    by (simp add: Cons_nth_drop_Suc)
  with tt s f show ?case by simp
qed

text \<open>
  Claim C2.  On a committed source forest, with a predicate that returns 0 on every
  call and with either setting of the recursive flag, \<open>t8_forest_adapt\<close> completes and
  the elements of every tree of the new forest are the elements of the source tree.
\<close>

theorem adapt_identity:
  assumes zero: "\<forall>tt n es. set_adapt_fn forest tt n es = 0"
    and len: "length forest_trees = length trees_from"
    and com: "\<forall>j<length trees_from.
        committed_tree (schemes (eclass (forest_trees ! j))) (elements (trees_from ! j))"
  shows "\<exists>f. t8_forest_adapt forest schemes forest_trees trees_from = Some (Inr f)
          \<and> map elements (trees f) = map elements trees_from"
  using adapt_trees_identity [OF zero, of 0 forest_trees trees_from schemes 0 0] len com
  by (simp add: t8_forest_adapt_def)


lemma two_trees_committed:
  "committed_tree (line_scheme 3) [[False, False], [False, True], [True]]"
  "committed_tree (line_scheme 3) [[]]"
  by code_simp+

theorem adapt_identity_witness:
  "(\<forall>tt n es. set_adapt_fn (adapt_with (\<lambda>tt n es. 0) True True True) tt n es = 0)
   \<and> length two_trees_new = length two_trees_from
   \<and> committed_tree (line_scheme 3) (elements (two_trees_from ! 0))
   \<and> committed_tree (line_scheme 3) (elements (two_trees_from ! 1))
   \<and> (\<exists>f. t8_forest_adapt (adapt_with (\<lambda>tt n es. 0) True True True) (\<lambda>c. line_scheme 3)
              two_trees_new two_trees_from = Some (Inr f)
          \<and> map elements (trees f) = map elements two_trees_from)"
proof -
  have com: "\<forall>j<length two_trees_from. committed_tree
      ((\<lambda>c. line_scheme 3) (eclass (two_trees_new ! j))) (elements (two_trees_from ! j))"
    using two_trees_committed by (simp add: two_trees_from_def less_Suc_eq numeral_2_eq_2)
  have zero: "\<forall>tt n es. set_adapt_fn (adapt_with (\<lambda>tt n es. 0) True True True) tt n es = 0"
    by (simp add: adapt_with_def)
  have len: "length two_trees_new = length two_trees_from"
    by (simp add: two_trees_new_def two_trees_from_def)
  from adapt_identity [OF zero len com] zero len two_trees_committed
  show ?thesis by (simp add: two_trees_from_def)
qed

subsection \<open>One turn of the loop: coarsening and refinement\<close>







text \<open>
  Claim C3, as amended.  In a recursive adapt, a turn of the loop over the source
  elements on which the predicate returns a positive value sets \<open>el_coarsen\<close> to
  \<open>el_inserted + num_children\<close>, where \<open>el_inserted\<close> counts the elements appended
  before this turn; the recursive refinement that follows leaves this value as it is.
\<close>

theorem refine_step_coarsen_floor:
  assumes len: "length (elements_from s) = k" and k: "0 < k"
    and c: "el_considered s < length src"
    and rec: "set_adapt_recursive forest"
    and pos: "0 < set_adapt_fn forest tt (length (adapt_window ts src (el_considered s) k))
                   (adapt_window ts src (el_considered s) k)"
    and run: "adapt_step forest ts tt src k s = Some (Inr s')"
  shows "el_coarsen s' = el_inserted s + k"
proof -
  let ?c = "el_considered s"
  let ?w = "adapt_window ts src ?c k"
  let ?n = "if family_candidate ts src ?c k then k else 1"
  from adapt_step_eq [OF len k c, of ts forest tt]
  obtain b where step: "adapt_step forest ts tt src k s =
      (let fam = family_candidate ts src ?c k;
           n = (if fam then k else 1);
           window = ?w;
           s0 = s\<lparr>elements_from := b\<rparr>;
           s1 = log_adapt In_Adapt n window s0;
           refine = set_adapt_fn forest tt n window
       in if enable_debug forest \<and> fam \<and> \<not> t8_element_is_family ts window
          then Some (Inl (Assertion_Failed, s0))
          else if enable_debug forest \<and> \<not> fam \<and> refine < 0
          then Some (Inl (Assertion_Failed, s1))
          else if refine > 0 then step_refine forest ts tt k (src ! ?c) s1
          else if refine < 0 then step_coarsen forest ts tt k (src ! ?c) s1
          else step_keep forest ts tt k (src ! ?c) s1)"
    by blast
  have n: "length ?w = ?n"
    using c k by (auto simp: adapt_window_def family_candidate_def)
  let ?s1 = "log_adapt In_Adapt ?n ?w (s\<lparr>elements_from := b\<rparr>)"
  from run pos have "step_refine forest ts tt k (src ! ?c) ?s1 = Some (Inr s')"
    unfolding step n by (auto simp: Let_def split: if_splits)
  then obtain s5 where
    ref: "t8_forest_adapt_refine_recursive forest tt ts
        (log_replace forest [src ! ?c] (t8_element_children ts (src ! ?c) k)
          (?s1\<lparr>el_coarsen := el_inserted ?s1 + k,
                refine_list := t8_element_children ts (src ! ?c) k @ refine_list ?s1\<rparr>))
        = Some s5"
    and s': "s' = s5\<lparr>el_considered := el_considered s5 + 1\<rparr>"
    using rec
    by (auto simp: step_refine_def Let_def and_then_def advance_def
        split: option.splits sum.splits)
  from refine_recursive_frame [OF ref] s' show ?thesis by simp
qed


lemma refine_root_step:
  "adapt_step (adapt_with (refine_below 2) True True True) (line_scheme 3) 0 [[]] 2
         (initial_state 2)
   = Some (Inr \<lparr>telements = [[False, False], [False, True], [True, False], [True, True]],
        el_considered = 1, el_coarsen = 2, refine_list = [],
        elements_from = [Some [], None],
        adapt_calls = [(In_Adapt, 1, [[]]), (In_Refine_Recursive, 1, [[False]]),
                       (In_Refine_Recursive, 1, [[False, False]]),
                       (In_Refine_Recursive, 1, [[False, True]]),
                       (In_Refine_Recursive, 1, [[True]]),
                       (In_Refine_Recursive, 1, [[True, False]]),
                       (In_Refine_Recursive, 1, [[True, True]])],
        replace_calls = [([[]], [[False], [True]]), ([[False]], [[False, False], [False, True]]),
                         ([[True]], [[True, False], [True, True]])],
        provenance = [From_Refine, From_Refine, From_Refine, From_Refine],
        coarsened = []\<rparr>)"
  by code_simp

lemma refine_root_window: "adapt_window (line_scheme 3) [[]] 0 2 = [[]]"
  by code_simp

theorem refine_step_coarsen_floor_witness:
  "length (elements_from (initial_state 2 :: bool list adapt_state)) = 2 \<and> (0::nat) < 2
   \<and> el_considered (initial_state 2 :: bool list adapt_state) < length [[] :: bool list]
   \<and> set_adapt_recursive (adapt_with (refine_below 2) True True True)
   \<and> 0 < refine_below 2 0 1 [[]]
   \<and> (\<exists>s'. adapt_step (adapt_with (refine_below 2) True True True) (line_scheme 3) 0 [[]] 2
               (initial_state 2) = Some (Inr s')
          \<and> el_coarsen s' = el_inserted (initial_state 2 :: bool list adapt_state) + 2)"
proof -
  let ?F = "adapt_with (refine_below 2) True True True"
  let ?s = "initial_state 2 :: bool list adapt_state"
  have s: "el_considered ?s = 0" "telements ?s = []"
    by (simp_all add: initial_state_def)
  have len: "length (elements_from ?s) = 2" by (simp add: initial_state_def)
  have c: "el_considered ?s < length [[] :: bool list]" by (simp add: initial_state_def)
  have rec: "set_adapt_recursive ?F" by (simp add: adapt_with_def)
  have pos: "0 < set_adapt_fn ?F 0
      (length (adapt_window (line_scheme 3) [[]] (el_considered ?s) 2))
      (adapt_window (line_scheme 3) [[]] (el_considered ?s) 2)"
    by (simp add: s refine_root_window adapt_with_def refine_below_def)
  from refine_step_coarsen_floor [OF len _ c rec pos refine_root_step] len c rec
    refine_root_step
  show ?thesis by (simp add: refine_below_def)
qed

theorem coarsen_floor_is_not_inserted_counterexample:
  "\<exists>s'. adapt_step (adapt_with (refine_below 2) True True True) (line_scheme 3) 0 [[]] 2
          (initial_state 2) = Some (Inr s')
     \<and> set_adapt_recursive (adapt_with (refine_below 2) True True True)
     \<and> 0 < set_adapt_fn (adapt_with (refine_below 2) True True True) 0 1 [[]]
     \<and> el_inserted (initial_state 2 :: bool list adapt_state) = 0
     \<and> el_inserted s' = 4
     \<and> el_coarsen s' = 2"
proof (intro exI conjI)
  show "adapt_step (adapt_with (refine_below 2) True True True) (line_scheme 3) 0 [[]] 2
          (initial_state 2) = Some (Inr \<lparr>telements = [[False, False], [False, True], [True, False], [True, True]],
        el_considered = 1, el_coarsen = 2, refine_list = [],
        elements_from = [Some [], None],
        adapt_calls = [(In_Adapt, 1, [[]]), (In_Refine_Recursive, 1, [[False]]),
                       (In_Refine_Recursive, 1, [[False, False]]),
                       (In_Refine_Recursive, 1, [[False, True]]),
                       (In_Refine_Recursive, 1, [[True]]),
                       (In_Refine_Recursive, 1, [[True, False]]),
                       (In_Refine_Recursive, 1, [[True, True]])],
        replace_calls = [([[]], [[False], [True]]), ([[False]], [[False, False], [False, True]]),
                         ([[True]], [[True, False], [True, True]])],
        provenance = [From_Refine, From_Refine, From_Refine, From_Refine],
        coarsened = []\<rparr>)"
    by (rule refine_root_step)
qed (simp_all add: adapt_with_def refine_below_def initial_state_def)

subsection \<open>Refining every element, then coarsening every family\<close>

lemma length_children [simp]: "length (t8_element_children ts e n) = n"
  by (simp add: t8_element_children_def)




lemma length_refine_all [simp]: "length (refine_all ts k src) = length src * k"
  by (induction src) (simp_all add: refine_all_def)




lemma initial_state_fields [simp]:
  "telements (initial_state k) = []" "el_considered (initial_state k) = 0"
  "el_coarsen (initial_state k) = 0" "refine_list (initial_state k) = []"
  "elements_from (initial_state k) = replicate k None" "adapt_calls (initial_state k) = []"
  "replace_calls (initial_state k) = []" "provenance (initial_state k) = []"
  "coarsened (initial_state k) = []"
  by (simp_all add: initial_state_def)







subsection \<open>The invocations of the predicate\<close>





































subsection \<open>The recursive refinement ends\<close>


lemma refine_measure_simps [simp]:
  "refine_measure ts k [] = 0"
  "refine_measure ts k (e # es)
     = refine_weight k (t8_element_maxlevel ts - t8_element_level ts e) + refine_measure ts k es"
  "refine_measure ts k (xs @ ys) = refine_measure ts k xs + refine_measure ts k ys"
  by (simp_all add: refine_measure_def)






lemma ancestor_eq_refl [simp]: "ancestor_eq ts a a"
  by (simp add: ancestor_eq_def)









subsection \<open>Elements from a refinement are not coarsened in the same adapt\<close>


lemma refine_last_snoc [simp]:
  "refine_last ts k (tel @ [x]) (prov @ [og])
     \<longleftrightarrow> (og = From_Refine \<longrightarrow> int (t8_element_child_id ts x) = int k - 1)"
  by (simp add: refine_last_def)



















subsection \<open>The number of children of a tree\<close>









lemma children_num_children [simp]:
  "t8_element_children (ts\<lparr>t8_element_num_children := g\<rparr>) el n = t8_element_children ts el n"
  by (simp add: t8_element_children_def)






lemma seven_but_first_turns:
  "spec_adapt_turns (coarsen_families 2 0) seven_but_first uniform_level2 2 0
   = [(In_Adapt, 2, [[False, False], [False, True]]),
      (In_Adapt, 2, [[True, False], [True, True]])]"
  by code_simp




subsection \<open>The order of the new elements\<close>
























end
